theory Spec2Isabelle
  imports Main
begin

section \<open>Values, event names and listeners\<close>

text \<open>
  The payload of a signal is \<open>any\<close> in the source. The model takes plain data: the
  primitive values and object literals a notification carries. \<open>Obj []\<close> is the empty
  object \<open>{}\<close> that \<open>next\<close> returns as the initial value.
\<close>

datatype val =
    Undefined
  | Bool bool
  | Num int
  | Str string
  | Obj "(string \<times> val) list"

text \<open>
  \<open>evt: keyof DataEmitterEvents\<close>: the public members of the abstract class, which are
  the three publisher methods. No other name (such as the emitter's special
  \<open>error\<close> event) is an event name of this program.
\<close>

datatype event = AuthChange | DevChange | BrowserStatusChange

text \<open>
  A listener on \<open>pub\<close> is a function object, compared by identity. \<open>Subscribed i\<close> is the
  closure \<open>subscribed\<close> created by the \<open>i\<close>-th call of \<open>subscribeTo\<close>. The field \<open>pub\<close>
  is \<open>protected\<close>, so a listener of another origin can stand on it as well: \<open>Quiet n\<close>
  returns normally and leaves the subscriptions alone, \<open>Faulty n\<close> throws.
\<close>

datatype listener = Subscribed nat | Quiet nat | Faulty nat

fun throws :: "listener \<Rightarrow> bool" where
  "throws (Subscribed i) = False"
| "throws (Quiet n) = False"
| "throws (Faulty n) = True"

text \<open>The object \<open>{ done, value }\<close> of the iterator protocol.\<close>

datatype iterator_result = IterResult (is_done: bool) (result_value: val)

text \<open>
  What a call of the \<open>async\<close> method \<open>next\<close> hands back: a promise that is either
  fulfilled at once with a result, or suspended at \<open>await dfd.promise\<close> on the deferred
  with the given identity.
\<close>

datatype pull = Immediate iterator_result | Awaiting nat

section \<open>The state\<close>

text \<open>
  The variables captured by one call of \<open>subscribeTo\<close>: its two parameters and the two
  \<open>let\<close>-bound locals. \<open>dfd\<close> is \<open>undefined\<close> (\<open>None\<close>) or refers to a deferred.
\<close>

record closure =
  evt :: event
  sendInitial :: bool
  hasSentInitial :: bool
  dfd :: "nat option"

text \<open>
  \<open>pub\<close> is the emitter's table of listeners, in registration order. \<open>closures\<close> is the
  store of the closure environments, allocated in order; \<open>deferreds\<close> is the store of
  the promises \<open>pDefer()\<close> has made: \<open>None\<close> while pending, \<open>Some v\<close> once fulfilled
  with \<open>v\<close>.
\<close>

record world =
  pub :: "event \<Rightarrow> listener list"
  closures :: "nat \<Rightarrow> closure"
  nclosures :: nat
  deferreds :: "nat \<Rightarrow> val option"
  ndeferreds :: nat

definition init :: world where
  "init = \<lparr> pub = (\<lambda>e. []),
            closures = (\<lambda>i. \<lparr> evt = AuthChange, sendInitial = False,
                               hasSentInitial = False, dfd = None \<rparr>),
            nclosures = 0,
            deferreds = (\<lambda>d. None),
            ndeferreds = 0 \<rparr>"

section \<open>The emitter and the deferred\<close>

text \<open>
  \<open>EventEmitter\<close> (Node's, imported from \<open>stream\<close>) and \<open>pDefer\<close> (the package
  \<open>p-defer\<close>) are libraries the source calls. They are modelled after their documented
  behaviour, as far as the source uses them: \<open>on\<close>, \<open>off\<close> and \<open>emit\<close> on the three
  event names, and a deferred with its \<open>resolve\<close>. The emitter's own events
  (\<open>newListener\<close>, \<open>removeListener\<close>, \<open>error\<close>) are not among the three names and have no
  listeners here.

  \<open>emitter.on(e, l)\<close> appends the listener to the list of \<open>e\<close>.
\<close>

definition pub_on :: "event \<Rightarrow> listener \<Rightarrow> world \<Rightarrow> world" where
  "pub_on e l st = st\<lparr> pub := (pub st)(e := pub st e @ [l]) \<rparr>"

text \<open>
  \<open>emitter.off(e, l)\<close> scans the list of \<open>e\<close> from its end and removes the first
  entry identical to \<open>l\<close> that it meets: the most recently added one. With no such entry
  it does nothing.
\<close>

definition remove_last :: "'a \<Rightarrow> 'a list \<Rightarrow> 'a list" where
  "remove_last x xs = rev (remove1 x (rev xs))"

definition pub_off :: "event \<Rightarrow> listener \<Rightarrow> world \<Rightarrow> world" where
  "pub_off e l st = st\<lparr> pub := (pub st)(e := remove_last l (pub st e)) \<rparr>"

text \<open>
  \<open>pDefer()\<close> makes a new pending promise. \<open>resolve\<close> fulfils a pending promise and does
  nothing to a settled one.
\<close>

definition pDefer :: "world \<Rightarrow> nat \<times> world" where
  "pDefer st =
     (ndeferreds st,
      st\<lparr> deferreds := (deferreds st)(ndeferreds st := None),
          ndeferreds := Suc (ndeferreds st) \<rparr>)"

definition resolve :: "nat \<Rightarrow> val \<Rightarrow> world \<Rightarrow> world" where
  "resolve d v st =
     (case deferreds st d of
        None \<Rightarrow> st\<lparr> deferreds := (deferreds st)(d := Some v) \<rparr>
      | Some w \<Rightarrow> st)"

text \<open>The first positional argument of a call, \<open>undefined\<close> when there is none.\<close>

fun arg0 :: "val list \<Rightarrow> val" where
  "arg0 [] = Undefined"
| "arg0 (v # vs) = v"

text \<open>\<open>function subscribed (val) { dfd?.resolve(val) }\<close> of subscription \<open>i\<close>.\<close>

definition subscribed :: "nat \<Rightarrow> val \<Rightarrow> world \<Rightarrow> world" where
  "subscribed i v st =
     (case dfd (closures st i) of
        None \<Rightarrow> st
      | Some d \<Rightarrow> resolve d v st)"

text \<open>Calling one listener: \<open>Inl n\<close> is the error thrown by the faulty listener \<open>n\<close>.\<close>

fun invoke :: "listener \<Rightarrow> val list \<Rightarrow> world \<Rightarrow> nat + world" where
  "invoke (Subscribed i) args st = Inr (subscribed i (arg0 args) st)"
| "invoke (Quiet n) args st = Inr st"
| "invoke (Faulty n) args st = Inl n"

datatype outcome = Returned | Threw nat

text \<open>
  What a call of \<open>emit\<close> leaves behind: how it ended, the calls it made (in order,
  each listener with the arguments it was given), and the state.
\<close>

record emission =
  outcome :: outcome
  invoked :: "(listener \<times> val list) list"
  final :: world

text \<open>
  \<open>emitter.emit(e, ...args)\<close> calls the listeners of a copy of the list of \<open>e\<close> one
  after the other with the same arguments. It catches nothing: an error thrown by a
  listener ends the loop and is thrown to the caller of \<open>emit\<close>.
\<close>

fun call_listeners :: "listener list \<Rightarrow> val list \<Rightarrow> world \<Rightarrow> emission" where
  "call_listeners [] args st = \<lparr> outcome = Returned, invoked = [], final = st \<rparr>"
| "call_listeners (l # ls) args st =
     (case invoke l args st of
        Inl n \<Rightarrow> \<lparr> outcome = Threw n, invoked = [(l, args)], final = st \<rparr>
      | Inr st' \<Rightarrow>
          (let r = call_listeners ls args st'
           in r\<lparr> invoked := (l, args) # invoked r \<rparr>))"

definition pub_emit :: "event \<Rightarrow> val list \<Rightarrow> world \<Rightarrow> emission" where
  "pub_emit e args st = call_listeners (pub st e) args st"

section \<open>DataEmitterEvents and DataEmitterActions\<close>

text \<open>The private method \<open>_emit\<close>: \<open>this.pub.emit(evt, ...args)\<close>.\<close>

definition private_emit :: "event \<Rightarrow> val list \<Rightarrow> world \<Rightarrow> emission" where
  "private_emit e args st = pub_emit e args st"

definition authChange :: "world \<Rightarrow> emission" where
  "authChange st = private_emit AuthChange [] st"

definition devChange :: "world \<Rightarrow> emission" where
  "devChange st = private_emit DevChange [] st"

definition browserStatusChange :: "world \<Rightarrow> emission" where
  "browserStatusChange st = private_emit BrowserStatusChange [] st"

text \<open>
  \<open>subscribeTo(evt, sendInitial)\<close> allocates the closure environment, registers
  \<open>subscribed\<close> on \<open>pub\<close> and returns the iterator, which the model names by the
  index of its environment.
\<close>

definition subscribeTo :: "event \<Rightarrow> bool \<Rightarrow> world \<Rightarrow> nat \<times> world" where
  "subscribeTo e si st =
     (let i = nclosures st;
          st1 = st\<lparr> closures := (closures st)(i := \<lparr> evt = e, sendInitial = si,
                                                     hasSentInitial = False, dfd = None \<rparr>),
                    nclosures := Suc i \<rparr>
      in (i, pub_on e (Subscribed i) st1))"

text \<open>
  The second half of \<open>next\<close>: \<open>dfd = pDefer()\<close> and the promise that waits for it.
\<close>

definition await_next :: "nat \<Rightarrow> world \<Rightarrow> pull \<times> world" where
  "await_next i st =
     (let (d, st1) = pDefer st
      in (Awaiting d,
          st1\<lparr> closures := (closures st1)(i := (closures st1 i)\<lparr> dfd := Some d \<rparr>) \<rparr>))"

text \<open>The method \<open>next\<close> of the iterator of subscription \<open>i\<close>.\<close>

definition iter_next :: "nat \<Rightarrow> world \<Rightarrow> pull \<times> world" where
  "iter_next i st =
     (if \<not> hasSentInitial (closures st i) \<and> sendInitial (closures st i)
      then (Immediate (IterResult False (Obj [])),
            st\<lparr> closures := (closures st)(i := (closures st i)\<lparr> hasSentInitial := True \<rparr>) \<rparr>)
      else await_next i st)"

text \<open>The method \<open>return\<close> of the iterator of subscription \<open>i\<close>.\<close>

definition iter_return :: "nat \<Rightarrow> world \<Rightarrow> iterator_result \<times> world" where
  "iter_return i st =
     (let st1 = pub_off (evt (closures st i)) (Subscribed i) st
      in (IterResult True Undefined,
          st1\<lparr> closures := (closures st1)(i := (closures st1 i)\<lparr> dfd := None \<rparr>) \<rparr>))"

text \<open>
  What a promise handed out by \<open>next\<close> has resolved with in a state, if it has.
\<close>

fun settled :: "world \<Rightarrow> pull \<Rightarrow> iterator_result option" where
  "settled st (Immediate r) = Some r"
| "settled st (Awaiting d) = map_option (IterResult False) (deferreds st d)"

section \<open>Runs\<close>

text \<open>
  The calls a user of \<open>DataEmitterActions\<close> can make, and the state after a sequence
  of them. An error thrown by \<open>_emit\<close> reaches the caller; the state it leaves is the
  one in which the faulty listener was called.
\<close>

datatype action =
    SubscribeTo event bool
  | Next nat
  | Return nat
  | Emit event "val list"

fun step :: "action \<Rightarrow> world \<Rightarrow> world" where
  "step (SubscribeTo e si) st = snd (subscribeTo e si st)"
| "step (Next i) st = snd (iter_next i st)"
| "step (Return i) st = snd (iter_return i st)"
| "step (Emit e args) st = final (private_emit e args st)"

fun run :: "action list \<Rightarrow> world \<Rightarrow> world" where
  "run [] st = st"
| "run (a # as) st = run as (step a st)"

section \<open>States the class can be in\<close>

text \<open>
  Only \<open>subscribeTo\<close> registers a \<open>subscribed\<close> closure, once, under the event of its
  own environment, and every deferred an environment refers to has been made by
  \<open>pDefer\<close>. The initial state satisfies this and every call keeps it.
\<close>

definition wf :: "world \<Rightarrow> bool" where
  "wf st \<longleftrightarrow>
     (\<forall>e i. Subscribed i \<in> set (pub st e) \<longrightarrow> i < nclosures st \<and> evt (closures st i) = e) \<and>
     (\<forall>e i. count_list (pub st e) (Subscribed i) \<le> 1) \<and>
     (\<forall>i d. dfd (closures st i) = Some d \<longrightarrow> d < ndeferreds st)"

text \<open>No listener on the emitter throws.\<close>

definition no_faulty :: "world \<Rightarrow> bool" where
  "no_faulty st \<longleftrightarrow> (\<forall>e. \<forall>l\<in>set (pub st e). \<not> throws l)"

section \<open>After a cancellation\<close>

text \<open>
  Subscription \<open>i\<close> exists and its callback stands on no event name.
\<close>

definition detached :: "nat \<Rightarrow> world \<Rightarrow> bool" where
  "detached i st \<longleftrightarrow> i < nclosures st \<and> (\<forall>e. Subscribed i \<notin> set (pub st e))"

text \<open>
  The deferred \<open>d\<close> is pending and no callback that stands on the emitter refers to it.
\<close>

definition orphan :: "nat \<Rightarrow> world \<Rightarrow> bool" where
  "orphan d st \<longleftrightarrow>
     deferreds st d = None \<and> d < ndeferreds st \<and>
     (\<forall>e j. Subscribed j \<in> set (pub st e) \<longrightarrow> dfd (closures st j) \<noteq> Some d)"

section \<open>Delivery in the words of the specification\<close>

text \<open>
  The consumer of one subscription pulls, the emitter signals. The specification has one
  slot per pull (the newest first) and a flag telling whether the initial value is still
  owed, which is so at the start exactly when the subscription was opened with
  \<open>sendInitial = true\<close>. A pull made while the initial value is owed is answered at once
  with \<open>{ done: false, value: {} }\<close>; any other pull opens a pending slot. A signal fills
  the newest slot with \<open>{ done: false, value: payload }\<close> if that slot is pending, and is
  dropped otherwise. A filled slot never changes.
\<close>

datatype cmd = Pull | Signal val

fun spec_step ::
  "cmd \<Rightarrow> bool \<times> iterator_result option list \<Rightarrow> bool \<times> iterator_result option list" where
  "spec_step Pull (True, slots) = (False, Some (IterResult False (Obj [])) # slots)"
| "spec_step Pull (False, slots) = (False, None # slots)"
| "spec_step (Signal p) (owed, []) = (owed, [])"
| "spec_step (Signal p) (owed, None # slots) = (owed, Some (IterResult False p) # slots)"
| "spec_step (Signal p) (owed, Some r # slots) = (owed, Some r # slots)"

fun spec_deliver ::
  "cmd list \<Rightarrow> bool \<times> iterator_result option list \<Rightarrow> bool \<times> iterator_result option list" where
  "spec_deliver [] s = s"
| "spec_deliver (c # cs) s = spec_deliver cs (spec_step c s)"

text \<open>
  What subscription \<open>i\<close> on event \<open>e\<close> sees of a sequence of calls: its own calls of
  \<open>next\<close> and the signals on \<open>e\<close>, with the payload \<open>subscribed\<close> receives.
\<close>

fun view :: "nat \<Rightarrow> event \<Rightarrow> action list \<Rightarrow> cmd list" where
  "view i e [] = []"
| "view i e (Next j # as) = (if j = i then Pull # view i e as else view i e as)"
| "view i e (Emit e' args # as) =
     (if e' = e then Signal (arg0 args) # view i e as else view i e as)"
| "view i e (SubscribeTo e' si # as) = view i e as"
| "view i e (Return j # as) = view i e as"

text \<open>
  The promises that the calls of \<open>next\<close> on subscription \<open>i\<close> hand out in the course of
  a run of the code, the newest first.
\<close>

fun pulls_of :: "nat \<Rightarrow> action list \<Rightarrow> world \<Rightarrow> pull list \<Rightarrow> pull list" where
  "pulls_of i [] st acc = acc"
| "pulls_of i (a # as) st acc =
     pulls_of i as (step a st) (if a = Next i then fst (iter_next i st) # acc else acc)"

text \<open>The condition under which \<open>next\<close> answers with the initial value.\<close>

definition initial_owed :: "nat \<Rightarrow> world \<Rightarrow> bool" where
  "initial_owed i st \<longleftrightarrow> \<not> hasSentInitial (closures st i) \<and> sendInitial (closures st i)"

text \<open>The deferred the newest promise waits for, if it waits.\<close>

fun waiting_on :: "pull list \<Rightarrow> nat option" where
  "waiting_on (Awaiting d # ps) = Some d"
| "waiting_on ps = None"

text \<open>
  The relation between a state of the code and the promises \<open>ps\<close> (the newest first)
  handed out so far by \<open>next\<close> on the open subscription \<open>i\<close> on \<open>e\<close>: while the initial
  value is owed none has been handed out, the callback stands on \<open>e\<close> only, \<open>dfd\<close> refers
  to the deferred of the newest promise, and no other subscription refers to any of them.
\<close>

definition tracks :: "nat \<Rightarrow> event \<Rightarrow> world \<Rightarrow> pull list \<Rightarrow> bool" where
  "tracks i e st ps \<longleftrightarrow>
     (initial_owed i st \<longrightarrow> ps = []) \<and>
     i < nclosures st \<and>
     no_faulty st \<and>
     (\<forall>e'. Subscribed i \<in> set (pub st e') \<longleftrightarrow> e' = e) \<and>
     (\<forall>d. Awaiting d \<in> set ps \<longrightarrow> d < ndeferreds st) \<and>
     distinct ps \<and>
     (\<forall>j d. j \<noteq> i \<longrightarrow> dfd (closures st j) = Some d \<longrightarrow> Awaiting d \<notin> set ps) \<and>
     dfd (closures st i) = waiting_on ps \<and>
     (\<forall>j d. dfd (closures st j) = Some d \<longrightarrow> d < ndeferreds st)"

section \<open>What one signal does\<close>

lemma resolve_fields [simp]:
  "pub (resolve d v st) = pub st"
  "closures (resolve d v st) = closures st"
  "nclosures (resolve d v st) = nclosures st"
  "ndeferreds (resolve d v st) = ndeferreds st"
  by (simp_all add: resolve_def split: option.splits)

lemma resolve_deferreds:
  "deferreds (resolve d v st) d' =
     (if d' = d \<and> deferreds st d = None then Some v else deferreds st d')"
  by (simp add: resolve_def split: option.splits)

lemma subscribed_fields [simp]:
  "pub (subscribed i v st) = pub st"
  "closures (subscribed i v st) = closures st"
  "nclosures (subscribed i v st) = nclosures st"
  "ndeferreds (subscribed i v st) = ndeferreds st"
  by (simp_all add: subscribed_def split: option.splits)

lemma subscribed_deferreds:
  "deferreds (subscribed i v st) d' =
     (if dfd (closures st i) = Some d' \<and> deferreds st d' = None then Some v
      else deferreds st d')"
  by (auto simp: subscribed_def resolve_deferreds split: option.splits)

lemma invoke_fields:
  assumes "invoke l args st = Inr st'"
  shows "pub st' = pub st" "closures st' = closures st"
    "nclosures st' = nclosures st" "ndeferreds st' = ndeferreds st"
  using assms by (cases l; auto)+

lemma call_listeners_fields [simp]:
  "pub (final (call_listeners ls args st)) = pub st"
  "closures (final (call_listeners ls args st)) = closures st"
  "nclosures (final (call_listeners ls args st)) = nclosures st"
  "ndeferreds (final (call_listeners ls args st)) = ndeferreds st"
  by (induction ls arbitrary: st; auto simp: Let_def invoke_fields split: sum.splits)+

lemma call_listeners_all:
  "\<forall>l\<in>set ls. \<not> throws l \<Longrightarrow>
     outcome (call_listeners ls args st) = Returned \<and>
     invoked (call_listeners ls args st) = map (\<lambda>l. (l, args)) ls"
proof (induction ls arbitrary: st)
  case Nil
  then show ?case by simp
next
  case (Cons l ls)
  then show ?case by (cases l) (auto simp: Let_def)
qed

lemma call_listeners_resolves:
  assumes "\<forall>l\<in>set ls. \<not> throws l"
    and "dfd (closures st i) = Some d"
    and "deferreds st d = Some (arg0 args) \<or>
         (deferreds st d = None \<and> Subscribed i \<in> set ls)"
  shows "deferreds (final (call_listeners ls args st)) d = Some (arg0 args)"
  using assms
proof (induction ls arbitrary: st)
  case Nil
  then show ?case by simp
next
  case (Cons l ls)
  show ?case
  proof (cases l)
    case (Subscribed j)
    let ?st' = "subscribed j (arg0 args) st"
    have nt: "\<forall>l\<in>set ls. \<not> throws l" using Cons.prems(1) by simp
    have c: "dfd (closures ?st' i) = Some d" using Cons.prems(2) by simp
    have "deferreds ?st' d = Some (arg0 args) \<or>
          (deferreds ?st' d = None \<and> Subscribed i \<in> set ls)"
      using Cons.prems(2,3) Subscribed by (auto simp: subscribed_deferreds)
    from Cons.IH [OF nt c this] show ?thesis
      using Subscribed by (simp add: Let_def)
  next
    case (Quiet n)
    with Cons show ?thesis by (auto simp: Let_def)
  next
    case (Faulty n)
    with Cons.prems show ?thesis by simp
  qed
qed


lemma call_listeners_deferreds:
  assumes "\<forall>l\<in>set ls. \<not> throws l"
  shows "deferreds (final (call_listeners ls args st)) d =
    (if deferreds st d = None \<and> (\<exists>j. Subscribed j \<in> set ls \<and> dfd (closures st j) = Some d)
     then Some (arg0 args) else deferreds st d)"
  using assms
proof (induction ls arbitrary: st)
  case Nil
  then show ?case by simp
next
  case (Cons l ls)
  have nt: "\<forall>l\<in>set ls. \<not> throws l" using Cons.prems by simp
  show ?case
  proof (cases l)
    case (Subscribed j)
    show ?thesis
      using Cons.IH [OF nt, of "subscribed j (arg0 args) st"] Subscribed
      by (auto simp: Let_def subscribed_deferreds)
  next
    case (Quiet n)
    with Cons.IH [OF nt, of st] show ?thesis by (auto simp: Let_def)
  next
    case (Faulty n)
    with Cons.prems show ?thesis by simp
  qed
qed

lemma call_listeners_deferreds_any:
  "deferreds (final (call_listeners ls args st)) d = deferreds st d \<or>
   (deferreds st d = None \<and> deferreds (final (call_listeners ls args st)) d = Some (arg0 args))"
proof (induction ls arbitrary: st)
  case Nil
  then show ?case by simp
next
  case (Cons l ls)
  show ?case
  proof (cases l)
    case (Subscribed j)
    show ?thesis
      using Cons.IH [of "subscribed j (arg0 args) st"] Subscribed
      by (auto simp: Let_def subscribed_deferreds split: if_splits)
  next
    case (Quiet n)
    with Cons.IH [of st] show ?thesis by (auto simp: Let_def)
  next
    case (Faulty n)
    then show ?thesis by simp
  qed
qed

lemma pDefer_simps [simp]:
  "fst (pDefer st) = ndeferreds st"
  "pub (snd (pDefer st)) = pub st"
  "closures (snd (pDefer st)) = closures st"
  "nclosures (snd (pDefer st)) = nclosures st"
  "ndeferreds (snd (pDefer st)) = Suc (ndeferreds st)"
  "deferreds (snd (pDefer st)) = (deferreds st)(ndeferreds st := None)"
  by (simp_all add: pDefer_def)

lemma await_next_simps [simp]:
  "fst (await_next i st) = Awaiting (ndeferreds st)"
  "pub (snd (await_next i st)) = pub st"
  "closures (snd (await_next i st)) =
     (closures st)(i := (closures st i)\<lparr> dfd := Some (ndeferreds st) \<rparr>)"
  "nclosures (snd (await_next i st)) = nclosures st"
  "ndeferreds (snd (await_next i st)) = Suc (ndeferreds st)"
  "deferreds (snd (await_next i st)) = (deferreds st)(ndeferreds st := None)"
  by (simp_all add: await_next_def pDefer_def)

lemma iter_next_frame [simp]:
  "pub (snd (iter_next i st)) = pub st"
  "nclosures (snd (iter_next i st)) = nclosures st"
  by (simp_all add: iter_next_def)

lemma subscribeTo_simps [simp]:
  "fst (subscribeTo e si st) = nclosures st"
  "pub (snd (subscribeTo e si st)) = (pub st)(e := pub st e @ [Subscribed (nclosures st)])"
  "closures (snd (subscribeTo e si st)) =
     (closures st)(nclosures st := \<lparr> evt = e, sendInitial = si,
                                      hasSentInitial = False, dfd = None \<rparr>)"
  "nclosures (snd (subscribeTo e si st)) = Suc (nclosures st)"
  "deferreds (snd (subscribeTo e si st)) = deferreds st"
  "ndeferreds (snd (subscribeTo e si st)) = ndeferreds st"
  by (simp_all add: subscribeTo_def pub_on_def Let_def)

lemma iter_return_simps [simp]:
  "fst (iter_return i st) = IterResult True Undefined"
  "pub (snd (iter_return i st)) =
     (pub st)(evt (closures st i) := remove_last (Subscribed i) (pub st (evt (closures st i))))"
  "closures (snd (iter_return i st)) = (closures st)(i := (closures st i)\<lparr> dfd := None \<rparr>)"
  "nclosures (snd (iter_return i st)) = nclosures st"
  "deferreds (snd (iter_return i st)) = deferreds st"
  "ndeferreds (snd (iter_return i st)) = ndeferreds st"
  by (simp_all add: iter_return_def pub_off_def Let_def)

lemma private_emit_simps [simp]:
  "pub (final (private_emit e args st)) = pub st"
  "closures (final (private_emit e args st)) = closures st"
  "nclosures (final (private_emit e args st)) = nclosures st"
  "ndeferreds (final (private_emit e args st)) = ndeferreds st"
  by (simp_all add: private_emit_def pub_emit_def)



lemma iter_next_live:
  "hasSentInitial (closures st i) \<or> \<not> sendInitial (closures st i) \<Longrightarrow>
     iter_next i st = await_next i st"
  by (auto simp: iter_next_def)


section \<open>Removing a listener, and the invariant\<close>

lemma count_list_remove_last [simp]:
  "count_list (remove_last a xs) b = count_list xs b - (if a = b then 1 else 0)"
  by (simp add: remove_last_def)

lemma in_set_remove_last [simp]:
  "a \<noteq> b \<Longrightarrow> a \<in> set (remove_last b xs) \<longleftrightarrow> a \<in> set xs"
  by (simp add: remove_last_def)

lemma set_remove_last_subset: "set (remove_last x xs) \<subseteq> set xs"
  using set_remove1_subset [of x "rev xs"] by (simp add: remove_last_def)

lemma remove_last_absent: "x \<notin> set xs \<Longrightarrow> remove_last x xs = xs"
  by (simp add: remove_last_def remove1_idem)

lemma remove_last_split:
  assumes "x \<in> set xs"
  shows "\<exists>ys zs. xs = ys @ x # zs \<and> x \<notin> set zs \<and> remove_last x xs = ys @ zs"
proof -
  from assms have "x \<in> set (rev xs)" by simp
  then obtain ls rs where
    a: "rev xs = ls @ x # rs" and b: "x \<notin> set ls" and c: "remove1 x (rev xs) = ls @ rs"
    using remove1_split [of x "rev xs" "remove1 x (rev xs)"] by auto
  from a have "rev (rev xs) = rev (ls @ x # rs)" by simp
  then have "xs = rev rs @ x # rev ls" by simp
  moreover have "remove_last x xs = rev rs @ rev ls" using c by (simp add: remove_last_def)
  moreover have "x \<notin> set (rev ls)" using b by simp
  ultimately show ?thesis by blast
qed

lemma remove_last_once:
  assumes "count_list xs x \<le> 1"
  shows "x \<notin> set (remove_last x xs)"
proof -
  have "count_list (remove_last x xs) x = 0" using assms by simp
  then show ?thesis using count_list_0_iff [of "remove_last x xs" x] by blast
qed

lemma wf_init: "wf init"
  by (simp add: wf_def init_def)

lemma wf_pub_on:
  assumes "wf st" and "\<forall>i. l \<noteq> Subscribed i"
  shows "wf (pub_on e l st)"
  using assms unfolding wf_def pub_on_def by auto

lemma wf_subscribeTo:
  assumes "wf st"
  shows "wf (snd (subscribeTo e si st))"
proof -
  have fresh: "Subscribed (nclosures st) \<notin> set (pub st e')" for e'
    using assms unfolding wf_def by (metis less_irrefl)
  have "count_list (pub st e') (Subscribed (nclosures st)) = 0" for e'
    using fresh by simp
  then show ?thesis
    using assms unfolding wf_def
    by (auto simp: less_Suc_eq)
qed

lemma wf_iter_next:
  assumes "wf st"
  shows "wf (snd (iter_next i st))"
  using assms unfolding wf_def iter_next_def
  by (auto simp: less_Suc_eq)

lemma wf_iter_return:
  assumes "wf st"
  shows "wf (snd (iter_return i st))"
proof -
  have sub: "l \<in> set (remove_last x xs) \<Longrightarrow> l \<in> set xs" for l x and xs :: "listener list"
    using set_remove_last_subset by fast
  have le: "count_list xs y \<le> 1 \<Longrightarrow> count_list xs y - n \<le> 1" for xs :: "listener list" and y n
    by simp
  show ?thesis
    using assms unfolding wf_def
    by (auto dest: sub simp: le)
qed

lemma wf_private_emit:
  assumes "wf st"
  shows "wf (final (private_emit e args st))"
  using assms unfolding wf_def by simp

lemma wf_step: "wf st \<Longrightarrow> wf (step a st)"
  by (cases a) (simp_all add: wf_subscribeTo wf_iter_next wf_iter_return wf_private_emit)

lemma wf_run: "wf st \<Longrightarrow> wf (run tr st)"
  by (induction tr arbitrary: st) (simp_all add: wf_step)

lemma pub_on_simps [simp]:
  "pub (pub_on e l st) = (pub st)(e := pub st e @ [l])"
  "closures (pub_on e l st) = closures st"
  "nclosures (pub_on e l st) = nclosures st"
  "deferreds (pub_on e l st) = deferreds st"
  "ndeferreds (pub_on e l st) = ndeferreds st"
  by (simp_all add: pub_on_def)

lemma filter_absent: "x \<notin> set xs \<Longrightarrow> filter (\<lambda>l. l \<noteq> x) xs = xs"
  by (induction xs) auto

lemma iter_return_detached:
  assumes "Subscribed i \<notin> set (pub st (evt (closures st i)))" and "dfd (closures st i) = None"
  shows "iter_return i st = (IterResult True Undefined, st)"
proof -
  have c: "(closures st i)\<lparr> dfd := None \<rparr> = closures st i"
    using assms(2) by simp
  have p: "pub_off (evt (closures st i)) (Subscribed i) st = st"
    using assms(1) by (simp add: pub_off_def remove_last_absent)
  show ?thesis
    by (simp add: iter_return_def p c)
qed

lemma call_listeners_faulty:
  assumes "\<forall>l\<in>set xs. \<not> throws l"
  shows "outcome (call_listeners (xs @ Faulty n # ys) args st) = Threw n \<and>
         invoked (call_listeners (xs @ Faulty n # ys) args st) =
           map (\<lambda>l. (l, args)) (xs @ [Faulty n]) \<and>
         final (call_listeners (xs @ Faulty n # ys) args st) = final (call_listeners xs args st)"
  using assms
proof (induction xs arbitrary: st)
  case Nil
  then show ?case by simp
next
  case (Cons l xs)
  then show ?case by (cases l) (auto simp: Let_def)
qed

section \<open>Invariants of runs\<close>

lemma invoked_subset: "fst ` set (invoked (call_listeners ls args st)) \<subseteq> set ls"
proof (induction ls arbitrary: st)
  case Nil
  then show ?case by simp
next
  case (Cons l ls)
  show ?case using Cons.IH by (cases l) (auto simp: Let_def)
qed

lemma call_listeners_untouched:
  assumes "\<forall>j. Subscribed j \<in> set ls \<longrightarrow> dfd (closures st j) \<noteq> Some d"
  shows "deferreds (final (call_listeners ls args st)) d = deferreds st d"
  using assms
proof (induction ls arbitrary: st)
  case Nil
  then show ?case by simp
next
  case (Cons l ls)
  show ?case
  proof (cases l)
    case (Subscribed j)
    have "deferreds (final (call_listeners ls args (subscribed j (arg0 args) st))) d =
        deferreds (subscribed j (arg0 args) st) d"
      using Cons.prems by (intro Cons.IH) simp
    then show ?thesis
      using Subscribed Cons.prems by (simp add: Let_def subscribed_deferreds)
  next
    case (Quiet n)
    then show ?thesis using Cons by (simp add: Let_def)
  next
    case (Faulty n)
    then show ?thesis by simp
  qed
qed

lemma in_remove_lastD: "l \<in> set (remove_last x xs) \<Longrightarrow> l \<in> set xs"
  using set_remove_last_subset [of x xs] by blast

lemma detached_step: "detached i st \<Longrightarrow> detached i (step a st)"
proof (cases a)
  case (Return j)
  assume "detached i st"
  then show ?thesis
    using Return unfolding detached_def by (auto dest: in_remove_lastD)
qed (auto simp: detached_def)

lemma detached_run: "detached i st \<Longrightarrow> detached i (run tr st)"
  by (induction tr arbitrary: st) (simp_all add: detached_step)

lemma orphan_step:
  assumes "orphan d st"
  shows "orphan d (step a st)"
proof (cases a)
  case (SubscribeTo e si)
  then show ?thesis using assms unfolding orphan_def by auto
next
  case (Next j)
  show ?thesis
  proof (cases "\<not> hasSentInitial (closures st j) \<and> sendInitial (closures st j)")
    case True
    then have "snd (iter_next j st) =
        st\<lparr> closures := (closures st)(j := (closures st j)\<lparr> hasSentInitial := True \<rparr>) \<rparr>"
      by (simp add: iter_next_def)
    then show ?thesis using Next assms unfolding orphan_def by simp
  next
    case False
    then have "iter_next j st = await_next j st" using iter_next_live [of st j] by blast
    then have eq: "step a st = snd (await_next j st)" using Next by simp
    have pend: "deferreds st d = None" and old: "d < ndeferreds st"
      and off: "\<And>e k. Subscribed k \<in> set (pub st e) \<Longrightarrow> dfd (closures st k) \<noteq> Some d"
      using assms unfolding orphan_def by blast+
    show ?thesis
      unfolding orphan_def eq
    proof (intro conjI allI impI)
      show "deferreds (snd (await_next j st)) d = None" using pend by simp
      show "d < ndeferreds (snd (await_next j st))" using old by simp
      fix e k
      assume "Subscribed k \<in> set (pub (snd (await_next j st)) e)"
      then have "dfd (closures st k) \<noteq> Some d" using off by simp
      moreover have "d \<noteq> ndeferreds st" using old by simp
      ultimately show "dfd (closures (snd (await_next j st)) k) \<noteq> Some d"
        by (cases "k = j") simp_all
    qed
  qed
next
  case (Return j)
  have pend: "deferreds st d = None" and old: "d < ndeferreds st"
    and off: "\<And>e k. Subscribed k \<in> set (pub st e) \<Longrightarrow> dfd (closures st k) \<noteq> Some d"
    using assms unfolding orphan_def by blast+
  have eq: "step a st = snd (iter_return j st)" using Return by simp
  show ?thesis
    unfolding orphan_def eq
  proof (intro conjI allI impI)
    show "deferreds (snd (iter_return j st)) d = None" using pend by simp
    show "d < ndeferreds (snd (iter_return j st))" using old by simp
    fix e k
    assume "Subscribed k \<in> set (pub (snd (iter_return j st)) e)"
    then have "Subscribed k \<in> set (pub st e)"
      by (cases "e = evt (closures st j)") (auto dest: in_remove_lastD)
    then have "dfd (closures st k) \<noteq> Some d" by (rule off)
    then show "dfd (closures (snd (iter_return j st)) k) \<noteq> Some d"
      by (cases "k = j") simp_all
  qed
next
  case (Emit e args)
  have "\<forall>j. Subscribed j \<in> set (pub st e) \<longrightarrow> dfd (closures st j) \<noteq> Some d"
    using assms unfolding orphan_def by blast
  from call_listeners_untouched [OF this, of args]
  show ?thesis
    using Emit assms unfolding orphan_def
    by (simp add: private_emit_def pub_emit_def)
qed

lemma orphan_run: "orphan d st \<Longrightarrow> orphan d (run tr st)"
  by (induction tr arbitrary: st) (simp_all add: orphan_step)

lemma detached_after_return:
  assumes "wf st" and "i < nclosures st"
  shows "detached i (snd (iter_return i st))"
proof -
  have once: "count_list (pub st (evt (closures st i))) (Subscribed i) \<le> 1"
    using assms(1) unfolding wf_def by blast
  have only: "Subscribed i \<in> set (pub st e) \<Longrightarrow> e = evt (closures st i)" for e
    using assms(1) unfolding wf_def by blast
  show ?thesis
    using remove_last_once [OF once] only assms(2)
    unfolding detached_def by auto
qed

lemma orphan_after_await:
  assumes "wf st" and "detached i st"
  shows "orphan (ndeferreds st) (snd (await_next i st))"
proof -
  have old: "dfd (closures st j) = Some d \<Longrightarrow> d < ndeferreds st" for j d
    using assms(1) unfolding wf_def by blast
  show ?thesis
    using assms(2) old unfolding orphan_def detached_def
    by (auto simp: less_irrefl)
qed

lemma no_faulty_step: "no_faulty st \<Longrightarrow> no_faulty (step a st)"
proof (cases a)
  case (Return j)
  assume "no_faulty st"
  then show ?thesis
    using Return unfolding no_faulty_def by (auto dest: in_remove_lastD)
qed (auto simp: no_faulty_def)

lemma no_faulty_run: "no_faulty st \<Longrightarrow> no_faulty (run tr st)"
  by (induction tr arbitrary: st) (simp_all add: no_faulty_step)

lemma registered_step:
  assumes "Subscribed i \<in> set (pub st e)" and "a \<noteq> Return i"
  shows "Subscribed i \<in> set (pub (step a st) e)"
  using assms by (cases a) auto

lemma registered_run:
  assumes "Subscribed i \<in> set (pub st e)" and "Return i \<notin> set tr"
  shows "Subscribed i \<in> set (pub (run tr st) e)"
  using assms
proof (induction tr arbitrary: st)
  case Nil
  then show ?case by simp
next
  case (Cons a tr)
  have "Subscribed i \<in> set (pub (step a st) e)"
    using Cons.prems by (intro registered_step) auto
  then show ?case using Cons by simp
qed

section \<open>The first pull and the later ones\<close>



lemma iter_next_initial:
  assumes "\<not> hasSentInitial (closures st i)" and "sendInitial (closures st i)"
  shows "iter_next i st =
    (Immediate (IterResult False (Obj [])),
     st\<lparr> closures := (closures st)(i := (closures st i)\<lparr> hasSentInitial := True \<rparr>) \<rparr>)"
  using assms by (simp add: iter_next_def)

lemma iter_next_waits:
  assumes "hasSentInitial (closures st i) \<or> \<not> sendInitial (closures st i)"
  shows "iter_next i st =
    (Awaiting (ndeferreds st),
     st\<lparr> closures := (closures st)(i := (closures st i)\<lparr> dfd := Some (ndeferreds st) \<rparr>),
         deferreds := (deferreds st)(ndeferreds st := None),
         ndeferreds := Suc (ndeferreds st) \<rparr>)"
  using assms by (auto simp: iter_next_def await_next_def pDefer_def)



section \<open>The code against the specification of delivery\<close>

lemma tracksD:
  assumes "tracks i e st ps"
  shows "initial_owed i st \<Longrightarrow> ps = []"
    and "i < nclosures st"
    and "no_faulty st"
    and "\<And>e'. Subscribed i \<in> set (pub st e') \<longleftrightarrow> e' = e"
    and "\<And>d. Awaiting d \<in> set ps \<Longrightarrow> d < ndeferreds st"
    and "distinct ps"
    and "\<And>j d. j \<noteq> i \<Longrightarrow> dfd (closures st j) = Some d \<Longrightarrow> Awaiting d \<notin> set ps"
    and "dfd (closures st i) = waiting_on ps"
    and "\<And>j d. dfd (closures st j) = Some d \<Longrightarrow> d < ndeferreds st"
  using assms unfolding tracks_def by blast+

lemma tracksI:
  assumes "initial_owed i st \<Longrightarrow> ps = []"
    and "i < nclosures st"
    and "no_faulty st"
    and "\<And>e'. Subscribed i \<in> set (pub st e') \<longleftrightarrow> e' = e"
    and "\<And>d. Awaiting d \<in> set ps \<Longrightarrow> d < ndeferreds st"
    and "distinct ps"
    and "\<And>j d. j \<noteq> i \<Longrightarrow> dfd (closures st j) = Some d \<Longrightarrow> Awaiting d \<notin> set ps"
    and "dfd (closures st i) = waiting_on ps"
    and "\<And>j d. dfd (closures st j) = Some d \<Longrightarrow> d < ndeferreds st"
  shows "tracks i e st ps"
  using assms unfolding tracks_def by blast

lemma settled_same:
  assumes "\<And>d. Awaiting d \<in> set ps \<Longrightarrow> deferreds st' d = deferreds st d"
  shows "map (settled st') ps = map (settled st) ps"
proof (rule map_cong [OF refl])
  fix pl
  assume m: "pl \<in> set ps"
  show "settled st' pl = settled st pl"
  proof (cases pl)
    case (Immediate r)
    then show ?thesis by simp
  next
    case (Awaiting d)
    then show ?thesis using assms [of d] m by simp
  qed
qed

lemma tracks_subscribeTo:
  assumes "tracks i e st ps"
  shows "tracks i e (snd (subscribeTo e' si st)) ps"
    and "initial_owed i (snd (subscribeTo e' si st)) = initial_owed i st"
    and "map (settled (snd (subscribeTo e' si st))) ps = map (settled st) ps"
proof -
  note t = tracksD [OF assms]
  let ?st' = "snd (subscribeTo e' si st)"
  have ne: "nclosures st \<noteq> i" using t(2) by simp
  show ow: "initial_owed i ?st' = initial_owed i st"
    using ne by (simp add: initial_owed_def)
  show "tracks i e ?st' ps"
  proof (rule tracksI)
    show "initial_owed i ?st' \<Longrightarrow> ps = []" using t(1) ow by simp
    show "i < nclosures ?st'" using t(2) by simp
    show "no_faulty ?st'"
      using no_faulty_step [OF t(3), of "SubscribeTo e' si"] by simp
    show "Subscribed i \<in> set (pub ?st' e'') \<longleftrightarrow> e'' = e" for e''
      using t(4) [of e''] ne by auto
    show "Awaiting d \<in> set ps \<Longrightarrow> d < ndeferreds ?st'" for d
      using t(5) by simp
    show "distinct ps" by (rule t(6))
    show "j \<noteq> i \<Longrightarrow> dfd (closures ?st' j) = Some d \<Longrightarrow> Awaiting d \<notin> set ps" for j d
      using t(7) [of j d] by (cases "j = nclosures st") simp_all
    show "dfd (closures ?st' i) = waiting_on ps" using t(8) ne by simp
    show "dfd (closures ?st' j) = Some d \<Longrightarrow> d < ndeferreds ?st'" for j d
      using t(9) [of j d] by (cases "j = nclosures st") simp_all
  qed
  show "map (settled ?st') ps = map (settled st) ps"
    by (rule settled_same) simp
qed

lemma tracks_return:
  assumes "tracks i e st ps" and "j \<noteq> i"
  shows "tracks i e (snd (iter_return j st)) ps"
    and "initial_owed i (snd (iter_return j st)) = initial_owed i st"
    and "map (settled (snd (iter_return j st))) ps = map (settled st) ps"
proof -
  note t = tracksD [OF assms(1)]
  let ?st' = "snd (iter_return j st)"
  show ow: "initial_owed i ?st' = initial_owed i st"
    using assms(2) by (simp add: initial_owed_def)
  show "tracks i e ?st' ps"
  proof (rule tracksI)
    show "initial_owed i ?st' \<Longrightarrow> ps = []" using t(1) ow by simp
    show "i < nclosures ?st'" using t(2) by simp
    show "no_faulty ?st'"
      using no_faulty_step [OF t(3), of "Return j"] by simp
    show "Subscribed i \<in> set (pub ?st' e') \<longleftrightarrow> e' = e" for e'
      using t(4) [of e'] assms(2) by (cases "e' = evt (closures st j)") simp_all
    show "Awaiting d \<in> set ps \<Longrightarrow> d < ndeferreds ?st'" for d
      using t(5) by simp
    show "distinct ps" by (rule t(6))
    show "k \<noteq> i \<Longrightarrow> dfd (closures ?st' k) = Some d \<Longrightarrow> Awaiting d \<notin> set ps" for k d
      using t(7) [of k d] by (cases "k = j") simp_all
    show "dfd (closures ?st' i) = waiting_on ps" using t(8) assms(2) by simp
    show "dfd (closures ?st' k) = Some d \<Longrightarrow> d < ndeferreds ?st'" for k d
      using t(9) [of k d] by (cases "k = j") simp_all
  qed
  show "map (settled ?st') ps = map (settled st) ps"
    by (rule settled_same) simp
qed

lemma tracks_next_other:
  assumes "tracks i e st ps" and "j \<noteq> i"
  shows "tracks i e (snd (iter_next j st)) ps"
    and "initial_owed i (snd (iter_next j st)) = initial_owed i st"
    and "map (settled (snd (iter_next j st))) ps = map (settled st) ps"
proof -
  note t = tracksD [OF assms(1)]
  let ?st' = "snd (iter_next j st)"
  have nf: "no_faulty ?st'"
    using no_faulty_step [OF t(3), of "Next j"] by simp
  have shape: "closures ?st' k = closures st k" if "k \<noteq> j" for k
    using that by (simp add: iter_next_def)
  have fl: "closures ?st' j = (closures st j)\<lparr> hasSentInitial := True \<rparr> \<or>
      (closures ?st' j = (closures st j)\<lparr> dfd := Some (ndeferreds st) \<rparr> \<and>
       ndeferreds ?st' = Suc (ndeferreds st))"
    by (simp add: iter_next_def)
  have nd: "ndeferreds st \<le> ndeferreds ?st'" by (simp add: iter_next_def)
  have df: "deferreds ?st' d = deferreds st d" if "d < ndeferreds st" for d
    using that by (simp add: iter_next_def)
  have fresh: "Awaiting (ndeferreds st) \<notin> set ps" using t(5) [of "ndeferreds st"] by auto
  show ow: "initial_owed i ?st' = initial_owed i st"
    using shape [of i] assms(2) by (simp add: initial_owed_def)
  show "tracks i e ?st' ps"
  proof (rule tracksI)
    show "initial_owed i ?st' \<Longrightarrow> ps = []" using t(1) ow by simp
    show "i < nclosures ?st'" using t(2) by simp
    show "no_faulty ?st'" by (rule nf)
    show "Subscribed i \<in> set (pub ?st' e') \<longleftrightarrow> e' = e" for e'
      using t(4) [of e'] by simp
    show "Awaiting d \<in> set ps \<Longrightarrow> d < ndeferreds ?st'" for d
      using t(5) [of d] nd by simp
    show "distinct ps" by (rule t(6))
    show "k \<noteq> i \<Longrightarrow> dfd (closures ?st' k) = Some d \<Longrightarrow> Awaiting d \<notin> set ps" for k d
    proof (cases "k = j")
      case False
      assume "k \<noteq> i" and "dfd (closures ?st' k) = Some d"
      then show ?thesis using t(7) [of k d] shape [OF False] by simp
    next
      case True
      assume "k \<noteq> i" and d: "dfd (closures ?st' k) = Some d"
      from fl show ?thesis
      proof
        assume "closures ?st' j = (closures st j)\<lparr> hasSentInitial := True \<rparr>"
        then have "dfd (closures st j) = Some d" using d True by simp
        then show ?thesis using t(7) [of j d] assms(2) by simp
      next
        assume "closures ?st' j = (closures st j)\<lparr> dfd := Some (ndeferreds st) \<rparr> \<and>
          ndeferreds ?st' = Suc (ndeferreds st)"
        then have "d = ndeferreds st" using d True by simp
        then show ?thesis using fresh by simp
      qed
    qed
    show "dfd (closures ?st' i) = waiting_on ps"
      using t(8) shape [of i] assms(2) by simp
    show "dfd (closures ?st' k) = Some d \<Longrightarrow> d < ndeferreds ?st'" for k d
    proof (cases "k = j")
      case False
      assume "dfd (closures ?st' k) = Some d"
      then show ?thesis using t(9) [of k d] shape [OF False] nd by simp
    next
      case True
      assume d: "dfd (closures ?st' k) = Some d"
      from fl show ?thesis
      proof
        assume "closures ?st' j = (closures st j)\<lparr> hasSentInitial := True \<rparr>"
        then have "dfd (closures st j) = Some d" using d True by simp
        then show ?thesis using t(9) [of j d] nd by simp
      next
        assume "closures ?st' j = (closures st j)\<lparr> dfd := Some (ndeferreds st) \<rparr> \<and>
          ndeferreds ?st' = Suc (ndeferreds st)"
        then show ?thesis using d True by simp
      qed
    qed
  qed
  show "map (settled ?st') ps = map (settled st) ps"
    using t(5) df by (intro settled_same) simp
qed

lemma tracks_next_self:
  assumes "tracks i e st ps"
  shows "tracks i e (snd (iter_next i st)) (fst (iter_next i st) # ps)"
    and "(initial_owed i (snd (iter_next i st)),
          map (settled (snd (iter_next i st))) (fst (iter_next i st) # ps)) =
         spec_step Pull (initial_owed i st, map (settled st) ps)"
proof -
  note t = tracksD [OF assms(1)]
  let ?st' = "snd (iter_next i st)"
  let ?pl = "fst (iter_next i st)"
  have nf: "no_faulty ?st'"
    using no_faulty_step [OF t(3), of "Next i"] by simp
  have both: "tracks i e ?st' (?pl # ps) \<and>
    (initial_owed i ?st', map (settled ?st') (?pl # ps)) =
       spec_step Pull (initial_owed i st, map (settled st) ps)"
  proof (cases "initial_owed i st")
    case True
    then have c: "\<not> hasSentInitial (closures st i)" "sendInitial (closures st i)"
      unfolding initial_owed_def by simp_all
    note I = iter_next_initial [OF c]
    have pl: "?pl = Immediate (IterResult False (Obj []))" by (simp only: I fst_conv)
    have st': "?st' = st\<lparr> closures := (closures st)
        (i := (closures st i)\<lparr> hasSentInitial := True \<rparr>) \<rparr>"
      by (simp only: I snd_conv)
    have e: "ps = []" using t(1) True by simp
    have ow: "\<not> initial_owed i ?st'" by (subst st') (simp add: initial_owed_def)
    have T: "tracks i e ?st' (?pl # ps)"
    proof (rule tracksI)
      show "initial_owed i ?st' \<Longrightarrow> ?pl # ps = []" using ow by simp
      show "i < nclosures ?st'" using t(2) by simp
      show "no_faulty ?st'" by (rule nf)
      show "Subscribed i \<in> set (pub ?st' e') \<longleftrightarrow> e' = e" for e'
        using t(4) [of e'] by simp
      show "Awaiting d \<in> set (?pl # ps) \<Longrightarrow> d < ndeferreds ?st'" for d
        by (simp add: pl e)
      show "distinct (?pl # ps)" by (simp add: e)
      show "k \<noteq> i \<Longrightarrow> dfd (closures ?st' k) = Some d \<Longrightarrow> Awaiting d \<notin> set (?pl # ps)"
        for k d
        by (simp add: pl e)
      show "dfd (closures ?st' i) = waiting_on (?pl # ps)"
        using t(8) by (subst st') (simp add: pl e)
      show "dfd (closures ?st' k) = Some d \<Longrightarrow> d < ndeferreds ?st'" for k d
        using t(9) [of k d] by (subst st', subst (asm) st') (cases "k = i", simp_all)
    qed
    have "(initial_owed i ?st', map (settled ?st') (?pl # ps)) =
        spec_step Pull (initial_owed i st, map (settled st) ps)"
      using True ow by (simp add: pl e)
    with T show ?thesis by (rule conjI)
  next
    case False
    then have l: "hasSentInitial (closures st i) \<or> \<not> sendInitial (closures st i)"
      unfolding initial_owed_def by blast
    note W = iter_next_waits [OF l]
    have pl: "?pl = Awaiting (ndeferreds st)" by (simp only: W fst_conv)
    have st': "?st' = st\<lparr> closures := (closures st)
          (i := (closures st i)\<lparr> dfd := Some (ndeferreds st) \<rparr>),
        deferreds := (deferreds st)(ndeferreds st := None),
        ndeferreds := Suc (ndeferreds st) \<rparr>"
      by (simp only: W snd_conv)
    have fresh: "Awaiting (ndeferreds st) \<notin> set ps" using t(5) [of "ndeferreds st"] by auto
    have ow: "\<not> initial_owed i ?st'"
      using False by (subst st') (simp add: initial_owed_def)
    have cl: "closures ?st' k = closures st k" if "k \<noteq> i" for k
      using that by (subst st') simp
    have cli: "dfd (closures ?st' i) = Some (ndeferreds st)" by (subst st') simp
    have nd: "ndeferreds ?st' = Suc (ndeferreds st)" by (subst st') simp
    have df: "deferreds ?st' d = deferreds st d" if "d < ndeferreds st" for d
      using that by (subst st') simp
    have dn: "deferreds ?st' (ndeferreds st) = None" by (subst st') simp
    have T: "tracks i e ?st' (?pl # ps)"
    proof (rule tracksI)
      show "initial_owed i ?st' \<Longrightarrow> ?pl # ps = []" using ow by simp
      show "i < nclosures ?st'" using t(2) by simp
      show "no_faulty ?st'" by (rule nf)
      show "Subscribed i \<in> set (pub ?st' e') \<longleftrightarrow> e' = e" for e'
        using t(4) [of e'] by simp
      show "Awaiting d \<in> set (?pl # ps) \<Longrightarrow> d < ndeferreds ?st'" for d
        using t(5) [of d] by (auto simp: pl nd)
      show "distinct (?pl # ps)" using t(6) fresh by (simp add: pl)
      show "k \<noteq> i \<Longrightarrow> dfd (closures ?st' k) = Some d \<Longrightarrow> Awaiting d \<notin> set (?pl # ps)"
        for k d
      proof -
        assume k: "k \<noteq> i" and "dfd (closures ?st' k) = Some d"
        then have old: "dfd (closures st k) = Some d" using cl [OF k] by simp
        then have "Awaiting d \<notin> set ps" using t(7) [OF k] by blast
        moreover have "d \<noteq> ndeferreds st" using t(9) [OF old] by simp
        ultimately show ?thesis by (simp add: pl)
      qed
      show "dfd (closures ?st' i) = waiting_on (?pl # ps)" by (simp add: cli pl)
      show "dfd (closures ?st' k) = Some d \<Longrightarrow> d < ndeferreds ?st'" for k d
      proof (cases "k = i")
        case True
        assume "dfd (closures ?st' k) = Some d"
        then show ?thesis using True cli nd by simp
      next
        case False
        assume "dfd (closures ?st' k) = Some d"
        then show ?thesis using t(9) [of k d] cl [OF False] nd by simp
      qed
    qed
    have "map (settled ?st') ps = map (settled st) ps"
      using t(5) df by (intro settled_same) simp
    then have "(initial_owed i ?st', map (settled ?st') (?pl # ps)) =
        spec_step Pull (initial_owed i st, map (settled st) ps)"
      using False ow dn by (simp add: pl)
    with T show ?thesis by (rule conjI)
  qed
  from both show "tracks i e ?st' (?pl # ps)" by (rule conjunct1)
  from both show "(initial_owed i ?st', map (settled ?st') (?pl # ps)) =
      spec_step Pull (initial_owed i st, map (settled st) ps)"
    by (rule conjunct2)
qed

lemma tracks_emit:
  assumes "tracks i e st ps"
  shows "tracks i e (final (private_emit e' args st)) ps"
    and "(initial_owed i (final (private_emit e' args st)),
          map (settled (final (private_emit e' args st))) ps) =
         (if e' = e then spec_step (Signal (arg0 args)) (initial_owed i st, map (settled st) ps)
          else (initial_owed i st, map (settled st) ps))"
proof -
  note t = tracksD [OF assms(1)]
  let ?st' = "final (private_emit e' args st)"
  have ow: "initial_owed i ?st' = initial_owed i st" by (simp add: initial_owed_def)
  show "tracks i e ?st' ps"
  proof (rule tracksI)
    show "initial_owed i ?st' \<Longrightarrow> ps = []" using t(1) ow by simp
    show "no_faulty ?st'"
      using no_faulty_step [OF t(3), of "Emit e' args"] by simp
    show "i < nclosures ?st'" using t(2) by simp
    show "Subscribed i \<in> set (pub ?st' e'') \<longleftrightarrow> e'' = e" for e''
      using t(4) [of e''] by simp
    show "Awaiting d \<in> set ps \<Longrightarrow> d < ndeferreds ?st'" for d using t(5) by simp
    show "distinct ps" by (rule t(6))
    show "j \<noteq> i \<Longrightarrow> dfd (closures ?st' j) = Some d \<Longrightarrow> Awaiting d \<notin> set ps" for j d
      using t(7) [of j d] by simp
    show "dfd (closures ?st' i) = waiting_on ps" using t(8) by simp
    show "dfd (closures ?st' j) = Some d \<Longrightarrow> d < ndeferreds ?st'" for j d
      using t(9) [of j d] by simp
  qed
  have nt: "\<forall>l\<in>set (pub st e'). \<not> throws l"
    using t(3) unfolding no_faulty_def by blast
  have after: "deferreds ?st' d =
      (if deferreds st d = None \<and>
          (\<exists>j. Subscribed j \<in> set (pub st e') \<and> dfd (closures st j) = Some d)
       then Some (arg0 args) else deferreds st d)" for d
    using call_listeners_deferreds [OF nt, of args st d]
    by (simp add: private_emit_def pub_emit_def)
  have who: "(\<exists>j. Subscribed j \<in> set (pub st e') \<and> dfd (closures st j) = Some d) \<longleftrightarrow>
      e' = e \<and> dfd (closures st i) = Some d" if "Awaiting d \<in> set ps" for d
  proof
    assume "\<exists>j. Subscribed j \<in> set (pub st e') \<and> dfd (closures st j) = Some d"
    then obtain j where j: "Subscribed j \<in> set (pub st e')" "dfd (closures st j) = Some d"
      by blast
    have "j = i"
    proof (rule ccontr)
      assume "j \<noteq> i"
      from t(7) [OF this j(2)] that show False by simp
    qed
    then show "e' = e \<and> dfd (closures st i) = Some d"
      using j t(4) [of e'] by simp
  next
    assume "e' = e \<and> dfd (closures st i) = Some d"
    then show "\<exists>j. Subscribed j \<in> set (pub st e') \<and> dfd (closures st j) = Some d"
      using t(4) [of e'] by blast
  qed
  have upd: "deferreds ?st' d =
      (if deferreds st d = None \<and> e' = e \<and> dfd (closures st i) = Some d
       then Some (arg0 args) else deferreds st d)" if "Awaiting d \<in> set ps" for d
    using after [of d] who [OF that] by simp
  have slots: "map (settled ?st') ps =
      (if e' = e then snd (spec_step (Signal (arg0 args)) (initial_owed i st, map (settled st) ps))
       else map (settled st) ps)"
  proof (cases "e' = e")
    case False
    have "map (settled ?st') ps = map (settled st) ps"
      using upd False by (intro settled_same) simp
    then show ?thesis using False by simp
  next
    case True
    show ?thesis
    proof (cases ps)
      case Nil
      then show ?thesis using True by simp
    next
      case (Cons pl rest)
      show ?thesis
      proof (cases pl)
        case (Immediate r)
        have none: "dfd (closures st i) = None" using t(8) Cons Immediate by simp
        have "map (settled ?st') ps = map (settled st) ps"
          using upd none by (intro settled_same) simp
        then show ?thesis using True Cons Immediate by simp
      next
        case (Awaiting d0)
        have w: "dfd (closures st i) = Some d0" using t(8) Cons Awaiting by simp
        have d0: "Awaiting d0 \<notin> set rest" using t(6) Cons Awaiting by simp
        have hd: "deferreds ?st' d0 =
            (if deferreds st d0 = None then Some (arg0 args) else deferreds st d0)"
          using upd [of d0] w True Cons Awaiting by simp
        have "Awaiting d \<in> set rest \<Longrightarrow> deferreds ?st' d = deferreds st d" for d
          using upd [of d] w d0 Cons by auto
        then have tl: "map (settled ?st') rest = map (settled st) rest"
          by (intro settled_same) simp
        show ?thesis
          using True Cons Awaiting hd tl by (cases "deferreds st d0") simp_all
      qed
    qed
  qed
  have fst_same: "fst (spec_step (Signal p) (b, sl)) = b" for p b sl
    by (cases "(Signal p, (b, sl))" rule: spec_step.cases) simp_all
  show "(initial_owed i ?st', map (settled ?st') ps) =
      (if e' = e then spec_step (Signal (arg0 args)) (initial_owed i st, map (settled st) ps)
       else (initial_owed i st, map (settled st) ps))"
    using ow slots fst_same [of "arg0 args" "initial_owed i st" "map (settled st) ps"]
    by (simp add: prod_eq_iff)
qed

lemma tracks_deliver:
  assumes "tracks i e st ps" and "Return i \<notin> set tr"
  shows "map (settled (run tr st)) (pulls_of i tr st ps) =
         snd (spec_deliver (view i e tr) (initial_owed i st, map (settled st) ps))"
  using assms
proof (induction tr arbitrary: st ps)
  case Nil
  then show ?case by simp
next
  case (Cons a tr)
  have rest: "Return i \<notin> set tr" using Cons.prems(2) by simp
  show ?case
  proof (cases a)
    case (SubscribeTo e' si)
    note s = tracks_subscribeTo [OF Cons.prems(1), of e' si]
    have "step a st = snd (subscribeTo e' si st)" using SubscribeTo by simp
    moreover have "pulls_of i (a # tr) st ps = pulls_of i tr (snd (subscribeTo e' si st)) ps"
      using SubscribeTo by simp
    moreover have "spec_deliver (view i e (a # tr)) (initial_owed i st, map (settled st) ps) =
        spec_deliver (view i e tr) (initial_owed i (snd (subscribeTo e' si st)),
          map (settled (snd (subscribeTo e' si st))) ps)"
      using SubscribeTo unfolding s(2,3) by simp
    ultimately show ?thesis
      using Cons.IH [OF s(1) rest] by (simp only: run.simps)
  next
    case (Next j)
    show ?thesis
    proof (cases "j = i")
      case True
      note s = tracks_next_self [OF Cons.prems(1)]
      have "step a st = snd (iter_next i st)" using Next True by simp
      moreover have "pulls_of i (a # tr) st ps =
          pulls_of i tr (snd (iter_next i st)) (fst (iter_next i st) # ps)"
        using Next True by simp
      moreover have "spec_deliver (view i e (a # tr)) (initial_owed i st, map (settled st) ps) =
          spec_deliver (view i e tr) (initial_owed i (snd (iter_next i st)),
            map (settled (snd (iter_next i st))) (fst (iter_next i st) # ps))"
        using Next True unfolding s(2) by simp
      ultimately show ?thesis
        using Cons.IH [OF s(1) rest] by (simp only: run.simps)
    next
      case False
      note s = tracks_next_other [OF Cons.prems(1) False]
      have "step a st = snd (iter_next j st)" using Next by simp
      moreover have "pulls_of i (a # tr) st ps = pulls_of i tr (snd (iter_next j st)) ps"
        using Next False by simp
      moreover have "spec_deliver (view i e (a # tr)) (initial_owed i st, map (settled st) ps) =
          spec_deliver (view i e tr) (initial_owed i (snd (iter_next j st)),
            map (settled (snd (iter_next j st))) ps)"
        using Next False unfolding s(2,3) by simp
      ultimately show ?thesis
        using Cons.IH [OF s(1) rest] by (simp only: run.simps)
    qed
  next
    case (Return j)
    then have ne: "j \<noteq> i" using Cons.prems(2) by auto
    note s = tracks_return [OF Cons.prems(1) ne]
    have "step a st = snd (iter_return j st)" using Return by simp
    moreover have "pulls_of i (a # tr) st ps = pulls_of i tr (snd (iter_return j st)) ps"
      using Return by simp
    moreover have "spec_deliver (view i e (a # tr)) (initial_owed i st, map (settled st) ps) =
        spec_deliver (view i e tr) (initial_owed i (snd (iter_return j st)),
          map (settled (snd (iter_return j st))) ps)"
      using Return unfolding s(2,3) by simp
    ultimately show ?thesis
      using Cons.IH [OF s(1) rest] by (simp only: run.simps)
  next
    case (Emit e' args)
    note s = tracks_emit [OF Cons.prems(1), of e' args]
    have "step a st = final (private_emit e' args st)" using Emit by simp
    moreover have "pulls_of i (a # tr) st ps =
        pulls_of i tr (final (private_emit e' args st)) ps"
      using Emit by simp
    moreover have "spec_deliver (view i e (a # tr)) (initial_owed i st, map (settled st) ps) =
        spec_deliver (view i e tr) (initial_owed i (final (private_emit e' args st)),
          map (settled (final (private_emit e' args st))) ps)"
      using Emit unfolding s(2) by simp
    ultimately show ?thesis
      using Cons.IH [OF s(1) rest] by (simp only: run.simps)
  qed
qed

lemma tracks_opened:
  assumes "wf st0" and "no_faulty st0"
  shows "tracks (nclosures st0) e (snd (subscribeTo e si st0)) []"
    and "initial_owed (nclosures st0) (snd (subscribeTo e si st0)) = si"
proof -
  let ?st = "snd (subscribeTo e si st0)"
  have alloc: "Subscribed (nclosures st0) \<notin> set (pub st0 e')" for e'
    using assms(1) unfolding wf_def by (metis less_irrefl)
  show "tracks (nclosures st0) e ?st []"
  proof (rule tracksI)
    show "initial_owed (nclosures st0) ?st \<Longrightarrow> [] = ([] :: pull list)" by simp
    show "nclosures st0 < nclosures ?st" by simp
    show "no_faulty ?st" using no_faulty_step [OF assms(2), of "SubscribeTo e si"] by simp
    show "Subscribed (nclosures st0) \<in> set (pub ?st e') \<longleftrightarrow> e' = e" for e'
      using alloc [of e'] by simp
    show "Awaiting d \<in> set [] \<Longrightarrow> d < ndeferreds ?st" for d by simp
    show "distinct ([] :: pull list)" by simp
    show "j \<noteq> nclosures st0 \<Longrightarrow> dfd (closures ?st j) = Some d \<Longrightarrow> Awaiting d \<notin> set []"
      for j d by simp
    show "dfd (closures ?st (nclosures st0)) = waiting_on []" by simp
    show "dfd (closures ?st j) = Some d \<Longrightarrow> d < ndeferreds ?st" for j d
      using assms(1) unfolding wf_def by (cases "j = nclosures st0") auto
  qed
  show "initial_owed (nclosures st0) ?st = si" by (simp add: initial_owed_def)
qed

section \<open>A signal on a name without listeners\<close>

text \<open>
  C9. For every event name, \<open>_emit\<close> on a name with no listener registered returns
  normally, calls nothing and leaves the whole state as it was.
\<close>

theorem emit_no_listeners:
  "pub st e = [] \<Longrightarrow>
     private_emit e args st = \<lparr> outcome = Returned, invoked = [], final = st \<rparr>"
  by (simp add: private_emit_def pub_emit_def)

theorem emit_no_listeners_witness:
  "pub init DevChange = [] \<and>
   private_emit DevChange [Num 1] init = \<lparr> outcome = Returned, invoked = [], final = init \<rparr>"
proof -
  have h: "pub init DevChange = []" by (simp add: init_def)
  show ?thesis using h emit_no_listeners [OF h, of "[Num 1]"] by simp
qed

section \<open>A pull that waits receives the payload of the next signal\<close>




section \<open>The initial value\<close>



section \<open>The publisher methods\<close>

text \<open>
  C10. \<open>authChange\<close>, \<open>devChange\<close> and \<open>browserStatusChange\<close> call \<open>_emit\<close> with the event
  name alone. Whatever promise such a call settles, it settles with \<open>undefined\<close>; every
  other promise is left as it was.
\<close>

theorem publishers_carry_no_payload:
  "authChange st = private_emit AuthChange [] st \<and>
   devChange st = private_emit DevChange [] st \<and>
   browserStatusChange st = private_emit BrowserStatusChange [] st \<and>
   (deferreds (final (authChange st)) d = deferreds st d \<or>
      deferreds st d = None \<and> deferreds (final (authChange st)) d = Some Undefined) \<and>
   (deferreds (final (devChange st)) d = deferreds st d \<or>
      deferreds st d = None \<and> deferreds (final (devChange st)) d = Some Undefined) \<and>
   (deferreds (final (browserStatusChange st)) d = deferreds st d \<or>
      deferreds st d = None \<and> deferreds (final (browserStatusChange st)) d = Some Undefined)"
  using call_listeners_deferreds_any [of "pub st AuthChange" "[]" st d]
    call_listeners_deferreds_any [of "pub st DevChange" "[]" st d]
    call_listeners_deferreds_any [of "pub st BrowserStatusChange" "[]" st d]
  by (simp add: authChange_def devChange_def browserStatusChange_def
      private_emit_def pub_emit_def)

theorem publishers_carry_no_payload_witness:
  "deferreds (snd (iter_next 0 (snd (subscribeTo AuthChange False init)))) 0 = None \<and>
   deferreds (final (authChange (snd (iter_next 0 (snd (subscribeTo AuthChange False init)))))) 0
     = Some Undefined"
  using publishers_carry_no_payload
    [where st = "snd (iter_next 0 (snd (subscribeTo AuthChange False init)))" and d = 0]
  by (simp add: iter_next_def init_def authChange_def private_emit_def pub_emit_def
      subscribed_deferreds Let_def)

section \<open>Cancelling\<close>

text \<open>
  C4. In a state of the class where the callback of subscription \<open>i\<close> stands on \<open>e\<close>,
  \<open>return\<close> removes that entry and nothing else: the list of \<open>e\<close> loses exactly the one
  entry \<open>Subscribed i\<close>, every other listener of \<open>e\<close> stays in place and in order, and the
  lists of the other event names are untouched.
\<close>

theorem cancel_removes_exactly_own_entry:
  assumes "wf st" and "Subscribed i \<in> set (pub st e)"
  shows "(\<exists>before after.
            pub st e = before @ Subscribed i # after \<and>
            pub (snd (iter_return i st)) e = before @ after \<and>
            Subscribed i \<notin> set (before @ after)) \<and>
         length (pub st e) = Suc (length (pub (snd (iter_return i st)) e)) \<and>
         pub (snd (iter_return i st)) e = filter (\<lambda>l. l \<noteq> Subscribed i) (pub st e) \<and>
         (\<forall>e'. e' \<noteq> e \<longrightarrow> pub (snd (iter_return i st)) e' = pub st e')"
proof -
  have ev: "evt (closures st i) = e" using assms unfolding wf_def by blast
  have once: "count_list (pub st e) (Subscribed i) \<le> 1" using assms(1) unfolding wf_def by blast
  have after: "pub (snd (iter_return i st)) e = remove_last (Subscribed i) (pub st e)"
    by (simp add: ev)
  obtain ys zs where
    sp: "pub st e = ys @ Subscribed i # zs" and rl: "remove_last (Subscribed i) (pub st e) = ys @ zs"
    using remove_last_split [OF assms(2)] by blast
  have gone: "Subscribed i \<notin> set (ys @ zs)"
    using remove_last_once [OF once] rl by simp
  have flt: "filter (\<lambda>l. l \<noteq> Subscribed i) (pub st e) = ys @ zs"
    using gone by (simp add: sp filter_absent)
  have others: "\<forall>e'. e' \<noteq> e \<longrightarrow> pub (snd (iter_return i st)) e' = pub st e'"
    by (simp add: ev)
  have split: "\<exists>before after.
            pub st e = before @ Subscribed i # after \<and>
            pub (snd (iter_return i st)) e = before @ after \<and>
            Subscribed i \<notin> set (before @ after)"
    using sp rl gone after by metis
  have len: "length (pub st e) = Suc (length (pub (snd (iter_return i st)) e))"
    unfolding after rl by (simp add: sp)
  have f: "pub (snd (iter_return i st)) e = filter (\<lambda>l. l \<noteq> Subscribed i) (pub st e)"
    unfolding after rl flt ..
  from split len f others show ?thesis by blast
qed

theorem cancel_removes_exactly_own_entry_witness:
  "pub (snd (subscribeTo AuthChange True
         (pub_on AuthChange (Quiet 7) (snd (subscribeTo AuthChange False init))))) AuthChange
     = [Subscribed 0, Quiet 7, Subscribed 1] \<and>
   pub (snd (iter_return 0 (snd (subscribeTo AuthChange True
         (pub_on AuthChange (Quiet 7) (snd (subscribeTo AuthChange False init))))))) AuthChange
     = [Quiet 7, Subscribed 1] \<and>
   pub (snd (iter_return 0 (snd (subscribeTo AuthChange True
         (pub_on AuthChange (Quiet 7) (snd (subscribeTo AuthChange False init))))))) DevChange
     = []"
proof -
  let ?st = "snd (subscribeTo AuthChange True
         (pub_on AuthChange (Quiet 7) (snd (subscribeTo AuthChange False init))))"
  have w: "wf ?st"
    by (intro wf_subscribeTo wf_pub_on wf_init) simp
  have p: "pub ?st AuthChange = [Subscribed 0, Quiet 7, Subscribed 1]"
    by (simp add: pub_on_def init_def)
  have m: "Subscribed 0 \<in> set (pub ?st AuthChange)"
    by (simp add: init_def)
  show ?thesis
    using cancel_removes_exactly_own_entry [OF w m] p
    by (simp add: init_def)
qed

text \<open>
  C8. In every state of the class and for every subscription, \<open>return\<close> answers
  \<open>{ done: true, value: undefined }\<close>, and calling it again, any number of times, answers
  the same and leaves the whole state as the first call left it.
\<close>

theorem cancel_idempotent:
  assumes "wf st"
  shows "fst (iter_return i st) = IterResult True Undefined \<and>
         iter_return i (snd (iter_return i st)) =
           (IterResult True Undefined, snd (iter_return i st)) \<and>
         (\<forall>n. ((\<lambda>s. snd (iter_return i s)) ^^ Suc n) st = snd (iter_return i st))"
proof -
  let ?st' = "snd (iter_return i st)"
  have once: "count_list (pub st (evt (closures st i))) (Subscribed i) \<le> 1"
    using assms unfolding wf_def by blast
  have a: "Subscribed i \<notin> set (pub ?st' (evt (closures ?st' i)))"
    using remove_last_once [OF once] by simp
  have b: "dfd (closures ?st' i) = None" by simp
  have again: "iter_return i ?st' = (IterResult True Undefined, ?st')"
    by (rule iter_return_detached [OF a b])
  have many: "((\<lambda>s. snd (iter_return i s)) ^^ Suc n) st = ?st'" for n
  proof (induction n)
    case 0
    show ?case by simp
  next
    case (Suc n)
    have "((\<lambda>s. snd (iter_return i s)) ^^ Suc (Suc n)) st =
        snd (iter_return i (((\<lambda>s. snd (iter_return i s)) ^^ Suc n) st))"
      by simp
    also have "\<dots> = snd (iter_return i ?st')" by (simp only: Suc.IH)
    also have "\<dots> = ?st'" by (simp only: again snd_conv)
    finally show ?case .
  qed
  show ?thesis using again many by simp
qed

theorem cancel_idempotent_witness:
  "iter_return 0 (snd (iter_return 0 (snd (iter_next 0 (snd (subscribeTo DevChange False init))))))
     = (IterResult True Undefined,
        snd (iter_return 0 (snd (iter_next 0 (snd (subscribeTo DevChange False init)))))) \<and>
   pub (snd (iter_return 0 (snd (iter_next 0 (snd (subscribeTo DevChange False init))))))
     DevChange = []"
proof -
  let ?st = "snd (iter_next 0 (snd (subscribeTo DevChange False init)))"
  have w: "wf ?st"
    by (intro wf_iter_next wf_subscribeTo wf_init)
  have p: "pub (snd (iter_return 0 ?st)) DevChange = []"
    by (simp add: init_def remove_last_def iter_next_def)
  show ?thesis
    using cancel_idempotent [OF w, of 0] p by simp
qed

section \<open>A listener that throws\<close>

text \<open>
  C5, as the code has it. \<open>_emit\<close> hands the call to the emitter and catches nothing. When
  none of the listeners of \<open>e\<close> throws, all of them are called, in order and each with the
  arguments of the signal, and \<open>_emit\<close> returns. When one throws, the listeners before it
  and the faulty one have been called with those arguments, those after it are not
  called, and the error reaches the caller of \<open>_emit\<close>. In both cases the state afterwards
  is the state before, except that every pending deferred which a called subscription
  refers to is fulfilled with the first argument of the signal.
\<close>

theorem emit_stops_at_faulty_listener:
  assumes "\<forall>l\<in>set xs. \<not> throws l"
  shows "(pub st e = xs \<longrightarrow>
            outcome (private_emit e args st) = Returned \<and>
            invoked (private_emit e args st) = map (\<lambda>l. (l, args)) xs) \<and>
         (pub st e = xs @ Faulty n # ys \<longrightarrow>
            outcome (private_emit e args st) = Threw n \<and>
            invoked (private_emit e args st) = map (\<lambda>l. (l, args)) (xs @ [Faulty n])) \<and>
         (pub st e = xs \<or> pub st e = xs @ Faulty n # ys \<longrightarrow>
            pub (final (private_emit e args st)) = pub st \<and>
            closures (final (private_emit e args st)) = closures st \<and>
            nclosures (final (private_emit e args st)) = nclosures st \<and>
            ndeferreds (final (private_emit e args st)) = ndeferreds st \<and>
            deferreds (final (private_emit e args st)) d =
              (if deferreds st d = None \<and>
                  (\<exists>j. Subscribed j \<in> set xs \<and> dfd (closures st j) = Some d)
               then Some (arg0 args) else deferreds st d))"
proof -
  have all: "pub st e = xs \<Longrightarrow>
      outcome (private_emit e args st) = Returned \<and>
      invoked (private_emit e args st) = map (\<lambda>l. (l, args)) xs"
    using call_listeners_all [OF assms, of args st]
    by (simp add: private_emit_def pub_emit_def)
  have stop: "pub st e = xs @ Faulty n # ys \<Longrightarrow>
      outcome (private_emit e args st) = Threw n \<and>
      invoked (private_emit e args st) = map (\<lambda>l. (l, args)) (xs @ [Faulty n])"
    using call_listeners_faulty [OF assms, of n ys args st]
    by (simp add: private_emit_def pub_emit_def)
  have fin: "final (private_emit e args st) = final (call_listeners xs args st)"
    if "pub st e = xs \<or> pub st e = xs @ Faulty n # ys"
    using that call_listeners_faulty [OF assms, of n ys args st]
    by (auto simp: private_emit_def pub_emit_def)
  have eff: "deferreds (final (call_listeners xs args st)) d =
      (if deferreds st d = None \<and>
          (\<exists>j. Subscribed j \<in> set xs \<and> dfd (closures st j) = Some d)
       then Some (arg0 args) else deferreds st d)"
    by (rule call_listeners_deferreds [OF assms])
  show ?thesis
    using all stop fin eff by (intro conjI impI) simp_all
qed

theorem emit_stops_at_faulty_listener_witness:
  "pub (snd (iter_next 1 (snd (iter_next 0 (snd (subscribeTo AuthChange False
          (pub_on AuthChange (Faulty 3) (snd (subscribeTo AuthChange False init))))))))) AuthChange
     = [Subscribed 0, Faulty 3, Subscribed 1] \<and>
   outcome (private_emit AuthChange [Num 1]
      (snd (iter_next 1 (snd (iter_next 0 (snd (subscribeTo AuthChange False
          (pub_on AuthChange (Faulty 3) (snd (subscribeTo AuthChange False init)))))))))) = Threw 3 \<and>
   invoked (private_emit AuthChange [Num 1]
      (snd (iter_next 1 (snd (iter_next 0 (snd (subscribeTo AuthChange False
          (pub_on AuthChange (Faulty 3) (snd (subscribeTo AuthChange False init))))))))))
     = [(Subscribed 0, [Num 1]), (Faulty 3, [Num 1])] \<and>
   deferreds (final (private_emit AuthChange [Num 1]
      (snd (iter_next 1 (snd (iter_next 0 (snd (subscribeTo AuthChange False
          (pub_on AuthChange (Faulty 3) (snd (subscribeTo AuthChange False init))))))))))) 0
     = Some (Num 1) \<and>
   deferreds (final (private_emit AuthChange [Num 1]
      (snd (iter_next 1 (snd (iter_next 0 (snd (subscribeTo AuthChange False
          (pub_on AuthChange (Faulty 3) (snd (subscribeTo AuthChange False init))))))))))) 1
     = None"
proof -
  let ?st = "snd (iter_next 1 (snd (iter_next 0 (snd (subscribeTo AuthChange False
          (pub_on AuthChange (Faulty 3) (snd (subscribeTo AuthChange False init))))))))"
  have h: "\<forall>l\<in>set [Subscribed 0]. \<not> throws l" by simp
  have p: "pub ?st AuthChange = [Subscribed 0] @ Faulty 3 # [Subscribed 1]"
    by (simp add: init_def)
  have w0: "dfd (closures ?st 0) = Some 0" and w1: "dfd (closures ?st 1) = Some 1"
    and p0: "deferreds ?st 0 = None" and p1: "deferreds ?st 1 = None"
    by (simp_all add: init_def iter_next_def)
  show ?thesis
    using emit_stops_at_faulty_listener
      [OF h, where st = ?st and e = AuthChange and n = 3 and ys = "[Subscribed 1]"
        and args = "[Num 1]" and d = 0]
      emit_stops_at_faulty_listener
      [OF h, where st = ?st and e = AuthChange and n = 3 and ys = "[Subscribed 1]"
        and args = "[Num 1]" and d = 1] p w0 w1 p0 p1
    by simp
qed

text \<open>
  The sentence of the specification fails as it is worded: with a faulty listener registered ahead
  of a subscription that waits, \<open>_emit\<close> throws, the callback of the subscription is not
  called and its promise stays pending.
\<close>

theorem failing_listener_not_isolated:
  "pub (snd (iter_next 0 (snd (subscribeTo AuthChange False
          (pub_on AuthChange (Faulty 0) init))))) AuthChange = [Faulty 0, Subscribed 0] \<and>
   outcome (private_emit AuthChange [Num 1]
      (snd (iter_next 0 (snd (subscribeTo AuthChange False
          (pub_on AuthChange (Faulty 0) init)))))) = Threw 0 \<and>
   invoked (private_emit AuthChange [Num 1]
      (snd (iter_next 0 (snd (subscribeTo AuthChange False
          (pub_on AuthChange (Faulty 0) init)))))) = [(Faulty 0, [Num 1])] \<and>
   fst (iter_next 0 (snd (subscribeTo AuthChange False
          (pub_on AuthChange (Faulty 0) init)))) = Awaiting 0 \<and>
   settled (final (private_emit AuthChange [Num 1]
      (snd (iter_next 0 (snd (subscribeTo AuthChange False
          (pub_on AuthChange (Faulty 0) init))))))) (Awaiting 0) = None"
  by (simp add: private_emit_def pub_emit_def pub_on_def init_def iter_next_def)

section \<open>Pulling after a cancellation\<close>

text \<open>
  C3, as the code has it. After \<open>return\<close> on an existing subscription, whatever calls
  follow, its callback stands on no event name and no signal calls it; a later \<open>next\<close>
  hands out a promise that no later run of calls ever settles, with one exception: when
  \<open>sendInitial\<close> is true and the initial value has not been sent, that \<open>next\<close> is
  fulfilled at once with \<open>{ done: false, value: {} }\<close>.
\<close>

theorem cancelled_pull_never_resolved_by_signal:
  assumes "wf st" and "i < nclosures st"
  shows "Subscribed i \<notin> set (pub (run tr (snd (iter_return i st))) e) \<and>
         Subscribed i \<notin>
           fst ` set (invoked (private_emit e args (run tr (snd (iter_return i st))))) \<and>
         (case iter_next i (run tr (snd (iter_return i st))) of (pl, st2) \<Rightarrow>
            settled (run tr' st2) pl =
              (if \<not> hasSentInitial (closures (run tr (snd (iter_return i st))) i) \<and>
                  sendInitial (closures (run tr (snd (iter_return i st))) i)
               then Some (IterResult False (Obj []))
               else None))"
proof -
  let ?st = "run tr (snd (iter_return i st))"
  have w: "wf ?st" using assms(1) by (intro wf_run wf_iter_return)
  have det: "detached i ?st"
    using detached_after_return [OF assms] by (rule detached_run)
  then have off: "Subscribed i \<notin> set (pub ?st e)" unfolding detached_def by blast
  have inv: "Subscribed i \<notin> fst ` set (invoked (private_emit e args ?st))"
    using invoked_subset [of "pub ?st e" args ?st] off
    by (auto simp: private_emit_def pub_emit_def)
  have pull: "settled (run tr' (snd (iter_next i ?st))) (fst (iter_next i ?st)) =
      (if \<not> hasSentInitial (closures ?st i) \<and> sendInitial (closures ?st i)
       then Some (IterResult False (Obj [])) else None)"
  proof (cases "\<not> hasSentInitial (closures ?st i) \<and> sendInitial (closures ?st i)")
    case True
    then have "fst (iter_next i ?st) = Immediate (IterResult False (Obj []))"
      by (simp add: iter_next_def)
    then show ?thesis using True by simp
  next
    case False
    then have eq: "iter_next i ?st = await_next i ?st"
      using iter_next_live [of ?st i] by blast
    have "orphan (ndeferreds ?st) (run tr' (snd (await_next i ?st)))"
      using orphan_after_await [OF w det] by (rule orphan_run)
    then have "deferreds (run tr' (snd (await_next i ?st))) (ndeferreds ?st) = None"
      unfolding orphan_def by blast
    then show ?thesis using False by (simp add: eq)
  qed
  from off inv pull show ?thesis by (simp add: split_beta)
qed

theorem cancelled_pull_never_resolved_by_signal_witness:
  "fst (iter_next 0 (run [Emit DevChange [Num 1]]
      (snd (iter_return 0 (snd (iter_next 0 (snd (subscribeTo DevChange False init)))))))) =
     Awaiting 1 \<and>
   settled (run [Emit DevChange [Num 2], Next 0, Emit DevChange [Num 3]]
      (snd (iter_next 0 (run [Emit DevChange [Num 1]]
        (snd (iter_return 0 (snd (iter_next 0 (snd (subscribeTo DevChange False init))))))))))
      (Awaiting 1) = None"
proof -
  let ?st = "snd (iter_next 0 (snd (subscribeTo DevChange False init)))"
  have w: "wf ?st" by (intro wf_iter_next wf_subscribeTo wf_init)
  have a: "0 < nclosures ?st" by simp
  have f: "fst (iter_next 0 (run [Emit DevChange [Num 1]] (snd (iter_return 0 ?st)))) = Awaiting 1"
    by (simp add: iter_next_def init_def)
  have c: "\<not> (\<not> hasSentInitial (closures (run [Emit DevChange [Num 1]] (snd (iter_return 0 ?st))) 0) \<and>
      sendInitial (closures (run [Emit DevChange [Num 1]] (snd (iter_return 0 ?st))) 0))"
    by (simp add: iter_next_def init_def)
  show ?thesis
    using cancelled_pull_never_resolved_by_signal [OF w a,
        where tr = "[Emit DevChange [Num 1]]" and e = DevChange and args = "[]"
        and tr' = "[Emit DevChange [Num 2], Next 0, Emit DevChange [Num 3]]"] f c
    by (simp add: split_beta)
qed

text \<open>
  The sentence of the specification fails as it is worded: \<open>next\<close> knows nothing of the
  cancellation, and on a cancelled subscription that has not sent its initial value it
  still issues one.
\<close>

theorem pull_after_cancel_yields_initial_value:
  "fst (iter_return 0 (snd (subscribeTo AuthChange True init))) = IterResult True Undefined \<and>
   pub (snd (iter_return 0 (snd (subscribeTo AuthChange True init)))) AuthChange = [] \<and>
   fst (iter_next 0 (snd (iter_return 0 (snd (subscribeTo AuthChange True init))))) =
     Immediate (IterResult False (Obj [])) \<and>
   settled (snd (iter_next 0 (snd (iter_return 0 (snd (subscribeTo AuthChange True init))))))
     (fst (iter_next 0 (snd (iter_return 0 (snd (subscribeTo AuthChange True init)))))) =
     Some (IterResult False (Obj []))"
  by (simp add: iter_next_def init_def remove_last_def)

section \<open>Registration\<close>

text \<open>
  C6. \<open>subscribeTo\<close> itself appends the callback to the listeners of \<open>e\<close>; \<open>next\<close> never
  touches the listeners. After any sequence of calls without \<open>return\<close> on the
  subscription the callback still stands on \<open>e\<close>, and, when no listener throws, a signal
  on \<open>e\<close> then calls it and fulfils the waiter \<open>dfd\<close> refers to (there is one such slot
  per subscription) with the signal's payload.
\<close>

theorem registered_from_open_until_cancel:
  "case subscribeTo e si st0 of (i, st1) \<Rightarrow>
     pub st1 e = pub st0 e @ [Subscribed i] \<and>
     pub (snd (iter_next j st)) = pub st \<and>
     (Return i \<notin> set tr \<longrightarrow>
        Subscribed i \<in> set (pub (run tr st1) e) \<and>
        (no_faulty st0 \<and> dfd (closures (run tr st1) i) = Some d \<and>
         deferreds (run tr st1) d = None \<longrightarrow>
           outcome (private_emit e args (run tr st1)) = Returned \<and>
           (Subscribed i, args) \<in> set (invoked (private_emit e args (run tr st1))) \<and>
           deferreds (final (private_emit e args (run tr st1))) d = Some (arg0 args)))"
proof -
  let ?i = "nclosures st0"
  let ?st1 = "snd (subscribeTo e si st0)"
  let ?st = "run tr ?st1"
  have opened: "pub ?st1 e = pub st0 e @ [Subscribed ?i]" by simp
  have reg: "Subscribed ?i \<in> set (pub ?st e)" if "Return ?i \<notin> set tr"
    using that by (intro registered_run) simp_all
  have obs: "outcome (private_emit e args ?st) = Returned \<and>
      (Subscribed ?i, args) \<in> set (invoked (private_emit e args ?st)) \<and>
      deferreds (final (private_emit e args ?st)) d = Some (arg0 args)"
    if nr: "Return ?i \<notin> set tr" and nf: "no_faulty st0"
      and w: "dfd (closures ?st ?i) = Some d" and p: "deferreds ?st d = None"
  proof -
    have "no_faulty ?st1" using nf unfolding no_faulty_def by auto
    then have "no_faulty ?st" by (rule no_faulty_run)
    then have nt: "\<forall>l\<in>set (pub ?st e). \<not> throws l" unfolding no_faulty_def by blast
    show ?thesis
      using call_listeners_all [OF nt, of args ?st]
        call_listeners_resolves [OF nt w, of args] p reg [OF nr]
      by (simp add: private_emit_def pub_emit_def)
  qed
  show ?thesis
    using opened reg obs by (simp add: split_beta)
qed

theorem registered_from_open_until_cancel_witness:
  "pub (snd (subscribeTo BrowserStatusChange True init)) BrowserStatusChange = [Subscribed 0] \<and>
   pub (run [Next 0, Emit BrowserStatusChange [], Next 0]
      (snd (subscribeTo BrowserStatusChange True init))) BrowserStatusChange = [Subscribed 0] \<and>
   dfd (closures (run [Next 0, Emit BrowserStatusChange [], Next 0]
      (snd (subscribeTo BrowserStatusChange True init))) 0) = Some 0 \<and>
   deferreds (run [Next 0, Emit BrowserStatusChange [], Next 0]
      (snd (subscribeTo BrowserStatusChange True init))) 0 = None \<and>
   deferreds (final (private_emit BrowserStatusChange [Bool True]
      (run [Next 0, Emit BrowserStatusChange [], Next 0]
        (snd (subscribeTo BrowserStatusChange True init))))) 0 = Some (Bool True)"
proof -
  let ?tr = "[Next 0, Emit BrowserStatusChange [], Next 0]"
  let ?st = "run ?tr (snd (subscribeTo BrowserStatusChange True init))"
  have nf: "no_faulty init" by (simp add: no_faulty_def init_def)
  have nr: "Return 0 \<notin> set ?tr" by simp
  have p: "pub ?st BrowserStatusChange = [Subscribed 0]"
    by (simp add: init_def)
  have w: "dfd (closures ?st 0) = Some 0"
    by (simp add: init_def iter_next_def private_emit_def pub_emit_def)
  have q: "deferreds ?st 0 = None"
    by (simp add: init_def iter_next_def private_emit_def pub_emit_def)
  show ?thesis
    using registered_from_open_until_cancel
      [where e = BrowserStatusChange and si = True and ?st0.0 = init and tr = ?tr
        and d = 0 and args = "[Bool True]" and j = 0 and st = init] nf nr p w q
    by (simp add: split_beta init_def)
qed

section \<open>Order of delivery\<close>

text \<open>
  C7. For a subscription opened in either mode, in a state of the class where no listener
  throws, and any sequence of calls without \<open>return\<close> on it, the promises its calls of
  \<open>next\<close> hand out are settled exactly as the specification of delivery says: the
  initial value, when owed, goes to the first pull; every other pull takes the payload of
  the first signal on \<open>e\<close> fired while it is the waiting pull, in the order of the
  signals; a signal fired while no pull waits is dropped and reaches no later pull.
\<close>

theorem pulls_receive_signals_in_order:
  assumes "wf st0" and "no_faulty st0" and "Return (nclosures st0) \<notin> set tr"
  shows "case subscribeTo e si st0 of (i, st1) \<Rightarrow>
           map (settled (run tr st1)) (pulls_of i tr st1 []) =
           snd (spec_deliver (view i e tr) (si, []))"
  using tracks_deliver [OF tracks_opened(1) [OF assms(1,2), of e si] assms(3)]
    tracks_opened(2) [OF assms(1,2), of e si]
  by (simp add: split_beta)

theorem pulls_receive_signals_in_order_witness:
  "map (settled (run [Emit DevChange [Num 1], Next 0, Emit DevChange [Num 2], Next 0,
                      Emit AuthChange [Num 9], Emit DevChange [Num 3],
                      Emit DevChange [Num 4], Next 0]
                  (snd (subscribeTo DevChange True init))))
       (pulls_of 0 [Emit DevChange [Num 1], Next 0, Emit DevChange [Num 2], Next 0,
                    Emit AuthChange [Num 9], Emit DevChange [Num 3],
                    Emit DevChange [Num 4], Next 0]
                  (snd (subscribeTo DevChange True init)) []) =
     [None, Some (IterResult False (Num 3)), Some (IterResult False (Obj []))] \<and>
   map (settled (run [Emit DevChange [Num 1], Next 0, Emit DevChange [Num 2], Next 0,
                      Emit AuthChange [Num 9], Emit DevChange [Num 3],
                      Emit DevChange [Num 4], Next 0]
                  (snd (subscribeTo DevChange False init))))
       (pulls_of 0 [Emit DevChange [Num 1], Next 0, Emit DevChange [Num 2], Next 0,
                    Emit AuthChange [Num 9], Emit DevChange [Num 3],
                    Emit DevChange [Num 4], Next 0]
                  (snd (subscribeTo DevChange False init)) []) =
     [None, Some (IterResult False (Num 3)), Some (IterResult False (Num 2))]"
proof -
  have nf: "no_faulty init" by (simp add: no_faulty_def init_def)
  have nr: "Return (nclosures init) \<notin> set [Emit DevChange [Num 1], Next 0,
      Emit DevChange [Num 2], Next 0, Emit AuthChange [Num 9], Emit DevChange [Num 3],
      Emit DevChange [Num 4], Next 0]"
    by simp
  have z: "nclosures init = 0" by (simp add: init_def)
  show ?thesis
    using pulls_receive_signals_in_order [OF wf_init nf nr, of DevChange True]
      pulls_receive_signals_in_order [OF wf_init nf nr, of DevChange False]
    by (simp add: split_beta z)
qed

end
